theory Spec2Isabelle
  imports Main
begin

section \<open>Python strings\<close>

text \<open>
  A Python \<open>str\<close> is a sequence of Unicode code points. The model covers the code points
  U+0000 to U+00FF (one \<open>char\<close> each) and the five ligature glyphs U+FB00 to U+FB04 that
  \<open>clean_text\<close> replaces. The character classes below are the ones CPython uses for
  \<open>str.isspace\<close>, \<open>str.isupper\<close>, \<open>str.islower\<close>, \<open>str.lower\<close> and for \<open>\s\<close>, \<open>\d\<close>,
  \<open>\w\<close> in \<open>re\<close>, restricted to these code points.
\<close>

datatype ligature = Lig_ff | Lig_fi | Lig_fl | Lig_ffi | Lig_ffl

datatype uchar = Ch char | Lig ligature

type_synonym ustring = "uchar list"

definition u :: "string \<Rightarrow> ustring" where
  "u s = map Ch s"

abbreviation TAB :: uchar where "TAB \<equiv> Ch (CHR 0x09)"
abbreviation NL :: uchar where "NL \<equiv> Ch (CHR 0x0A)"
abbreviation CR :: uchar where "CR \<equiv> Ch (CHR 0x0D)"
abbreviation SP :: uchar where "SP \<equiv> Ch (CHR '' '')"

fun code_point :: "uchar \<Rightarrow> int" where
  "code_point (Ch c) = of_char c"
| "code_point (Lig Lig_ff) = 0xFB00"
| "code_point (Lig Lig_fi) = 0xFB01"
| "code_point (Lig Lig_fl) = 0xFB02"
| "code_point (Lig Lig_ffi) = 0xFB03"
| "code_point (Lig Lig_ffl) = 0xFB04"

definition between :: "int \<Rightarrow> int \<Rightarrow> int \<Rightarrow> bool" where
  "between lo hi n = (lo \<le> n \<and> n \<le> hi)"

definition is_space :: "uchar \<Rightarrow> bool" where
  "is_space c = (let n = code_point c in
     between 0x09 0x0D n \<or> between 0x1C 0x20 n \<or> n = 0x85 \<or> n = 0xA0)"

definition is_digit :: "uchar \<Rightarrow> bool" where
  "is_digit c = between 0x30 0x39 (code_point c)"

definition is_upper_char :: "uchar \<Rightarrow> bool" where
  "is_upper_char c = (let n = code_point c in
     between 0x41 0x5A n \<or> between 0xC0 0xD6 n \<or> between 0xD8 0xDE n)"

definition is_lower_char :: "uchar \<Rightarrow> bool" where
  "is_lower_char c = (let n = code_point c in
     between 0x61 0x7A n \<or> n = 0xAA \<or> n = 0xB5 \<or> n = 0xBA \<or>
     between 0xDF 0xF6 n \<or> between 0xF8 0xFF n \<or> between 0xFB00 0xFB04 n)"

definition is_word :: "uchar \<Rightarrow> bool" where
  "is_word c = (let n = code_point c in
     between 0x30 0x39 n \<or> between 0x41 0x5A n \<or> n = 0x5F \<or> between 0x61 0x7A n \<or>
     n = 0xAA \<or> between 0xB2 0xB3 n \<or> n = 0xB5 \<or> between 0xB9 0xBA n \<or>
     between 0xBC 0xBE n \<or> between 0xC0 0xD6 n \<or> between 0xD8 0xF6 n \<or>
     between 0xF8 0xFF n \<or> between 0xFB00 0xFB04 n)"

fun to_lower :: "uchar \<Rightarrow> uchar" where
  "to_lower (Ch c) = (if is_upper_char (Ch c) then Ch (char_of (of_char c + (32::int))) else Ch c)"
| "to_lower (Lig l) = Lig l"

fun to_upper :: "uchar \<Rightarrow> uchar" where
  "to_upper (Ch c) = (if is_upper_char (Ch (char_of (of_char c - (32::int))))
                      then Ch (char_of (of_char c - (32::int))) else Ch c)"
| "to_upper (Lig l) = Lig l"

definition lower :: "ustring \<Rightarrow> ustring" where
  "lower s = map to_lower s"

definition lstrip :: "ustring \<Rightarrow> ustring" where
  "lstrip s = dropWhile is_space s"

definition rstrip :: "ustring \<Rightarrow> ustring" where
  "rstrip s = rev (dropWhile is_space (rev s))"

definition strip :: "ustring \<Rightarrow> ustring" where
  "strip s = rstrip (lstrip s)"

definition rstrip_chars :: "ustring \<Rightarrow> ustring \<Rightarrow> ustring" where
  "rstrip_chars cs s = rev (dropWhile (\<lambda>c. List.member cs c) (rev s))"

definition endswith :: "ustring \<Rightarrow> ustring \<Rightarrow> bool" where
  "endswith s suf = (length suf \<le> length s \<and> drop (length s - length suf) s = suf)"

text \<open>\<open>str.split()\<close> without argument: the maximal runs of non-whitespace characters.\<close>

fun split_ws_acc :: "ustring \<Rightarrow> ustring \<Rightarrow> ustring list" where
  "split_ws_acc w [] = (if w = [] then [] else [w])"
| "split_ws_acc w (c # cs) =
     (if is_space c then (if w = [] then split_ws_acc [] cs else w # split_ws_acc [] cs)
      else split_ws_acc (w @ [c]) cs)"

definition split_ws :: "ustring \<Rightarrow> ustring list" where
  "split_ws s = split_ws_acc [] s"

text \<open>\<open>s.split("\n")\<close> and \<open>"\n".join(xs)\<close>.\<close>

fun split_nl :: "ustring \<Rightarrow> ustring list" where
  "split_nl [] = [[]]"
| "split_nl (c # cs) =
     (if c = NL then [] # split_nl cs
      else (case split_nl cs of [] \<Rightarrow> [[c]] | l # ls \<Rightarrow> (c # l) # ls))"

fun join_nl :: "ustring list \<Rightarrow> ustring" where
  "join_nl [] = []"
| "join_nl [x] = x"
| "join_nl (x # y # ys) = x @ NL # join_nl (y # ys)"

text \<open>\<open>str.isupper()\<close>: at least one upper-case character and no lower-case one.\<close>

definition str_isupper :: "ustring \<Rightarrow> bool" where
  "str_isupper s = (list_ex is_upper_char s \<and> \<not> list_ex is_lower_char s)"

text \<open>\<open>s.replace(old, new)\<close> for a one-character \<open>old\<close>.\<close>

definition replace_char :: "uchar \<Rightarrow> ustring \<Rightarrow> ustring \<Rightarrow> ustring" where
  "replace_char old new s = concat (map (\<lambda>c. if c = old then new else [c]) s)"

section \<open>Regular expressions\<close>

text \<open>
  The patterns of the source are kept as data. Repetition is only ever applied to a
  single character class in the source, so \<open>Rep\<close> carries a class, the bounds and
  whether it is greedy. The matcher returns every position at which the pattern can
  end, in the order in which a backtracking matcher tries them; the first one is the
  match that \<open>re\<close> reports.
\<close>

record flags =
  ignorecase :: bool
  multiline :: bool
  dotall :: bool

datatype cset =
    Any
  | Lit uchar
  | Range uchar uchar
  | Digit
  | Space
  | NonSpace
  | Word
  | Union "cset list"

datatype re =
    Atom cset
  | Rep cset nat "nat option" bool
  | Bol
  | Eol
  | Boundary
  | Alt "re list list"
  | Lookahead "re list list"

type_synonym regex = "re list"

text \<open>A cursor is a position in the subject: the characters before it, nearest first,
  and the characters after it.\<close>

type_synonym cursor = "ustring \<times> ustring"

definition in_range :: "uchar \<Rightarrow> uchar \<Rightarrow> uchar \<Rightarrow> bool" where
  "in_range a b c = between (code_point a) (code_point b) (code_point c)"

fun in_cset :: "flags \<Rightarrow> cset \<Rightarrow> uchar \<Rightarrow> bool" where
  "in_cset f Any c = (dotall f \<or> c \<noteq> NL)"
| "in_cset f (Lit a) c = (if ignorecase f then to_lower c = to_lower a else c = a)"
| "in_cset f (Range a b) c =
     (if ignorecase f then in_range a b (to_lower c) \<or> in_range a b (to_upper (to_lower c))
      else in_range a b c)"
| "in_cset f Digit c = is_digit c"
| "in_cset f Space c = is_space c"
| "in_cset f NonSpace c = (\<not> is_space c)"
| "in_cset f Word c = is_word c"
| "in_cset f (Union cs) c = list_ex (\<lambda>s. in_cset f s c) cs"

definition at_bol :: "flags \<Rightarrow> cursor \<Rightarrow> bool" where
  "at_bol f c = (case fst c of [] \<Rightarrow> True | p # _ \<Rightarrow> multiline f \<and> p = NL)"

definition at_eol :: "flags \<Rightarrow> cursor \<Rightarrow> bool" where
  "at_eol f c = (case snd c of [] \<Rightarrow> True
                 | x # xs \<Rightarrow> x = NL \<and> (multiline f \<or> xs = []))"

definition at_boundary :: "cursor \<Rightarrow> bool" where
  "at_boundary c =
     ((case fst c of [] \<Rightarrow> False | p # _ \<Rightarrow> is_word p) \<noteq>
      (case snd c of [] \<Rightarrow> False | x # _ \<Rightarrow> is_word x))"

definition advance :: "nat \<Rightarrow> cursor \<Rightarrow> cursor" where
  "advance n c = (rev (take n (snd c)) @ fst c, drop n (snd c))"

definition rep_counts :: "nat \<Rightarrow> nat option \<Rightarrow> bool \<Rightarrow> nat \<Rightarrow> nat list" where
  "rep_counts lo hi greedy k =
     (let m = (case hi of None \<Rightarrow> k | Some h \<Rightarrow> min h k);
          ns = [lo ..< Suc m]
      in if greedy then rev ns else ns)"

fun m_item :: "flags \<Rightarrow> re \<Rightarrow> cursor \<Rightarrow> cursor list"
and m_seq :: "flags \<Rightarrow> re list \<Rightarrow> cursor \<Rightarrow> cursor list"
and m_alts :: "flags \<Rightarrow> re list list \<Rightarrow> cursor \<Rightarrow> cursor list" where
  "m_item f (Atom cs) c =
     (case snd c of [] \<Rightarrow> [] | x # xs \<Rightarrow> if in_cset f cs x then [advance 1 c] else [])"
| "m_item f (Rep cs lo hi greedy) c =
     map (\<lambda>n. advance n c) (rep_counts lo hi greedy (length (takeWhile (in_cset f cs) (snd c))))"
| "m_item f Bol c = (if at_bol f c then [c] else [])"
| "m_item f Eol c = (if at_eol f c then [c] else [])"
| "m_item f Boundary c = (if at_boundary c then [c] else [])"
| "m_item f (Alt as) c = m_alts f as c"
| "m_item f (Lookahead as) c = (if m_alts f as c = [] then [] else [c])"
| "m_seq f [] c = [c]"
| "m_seq f (x # xs) c = concat (map (m_seq f xs) (m_item f x c))"
| "m_alts f [] c = []"
| "m_alts f (a # as) c = m_seq f a c @ m_alts f as c"

text \<open>\<open>re.match\<close>: the pattern matches at the start of the subject.\<close>

definition re_match :: "flags \<Rightarrow> regex \<Rightarrow> ustring \<Rightarrow> bool" where
  "re_match f r s = (m_seq f r ([], s) \<noteq> [])"

text \<open>\<open>re.search\<close>: the pattern matches at some position, tried from left to right.\<close>

fun search_from :: "flags \<Rightarrow> regex \<Rightarrow> ustring \<Rightarrow> ustring \<Rightarrow> bool" where
  "search_from f r b [] = (m_seq f r (b, []) \<noteq> [])"
| "search_from f r b (x # xs) = (m_seq f r (b, x # xs) \<noteq> [] \<or> search_from f r (x # b) xs)"

definition re_search :: "flags \<Rightarrow> regex \<Rightarrow> ustring \<Rightarrow> bool" where
  "re_search f r s = search_from f r [] s"

text \<open>Every end position lies at or after the start position, in the same subject.\<close>

definition reaches :: "cursor \<Rightarrow> cursor \<Rightarrow> bool" where
  "reaches c c' = (\<exists>t. snd c = t @ snd c' \<and> fst c' = rev t @ fst c)"

lemma reaches_refl: "reaches c c"
  by (simp add: reaches_def)

lemma reaches_trans: "reaches c c' \<Longrightarrow> reaches c' c'' \<Longrightarrow> reaches c c''"
  unfolding reaches_def by auto

lemma reaches_advance: "n \<le> length (snd c) \<Longrightarrow> reaches c (advance n c)"
  unfolding reaches_def advance_def
  by (rule exI [of _ "take n (snd c)"]) simp

lemma rep_counts_le: "n \<in> set (rep_counts lo hi g k) \<Longrightarrow> lo \<le> n \<and> n \<le> k"
  by (auto simp: rep_counts_def Let_def split: option.splits if_splits)

lemma m_reaches:
  "c' \<in> set (m_item f x c) \<Longrightarrow> reaches c c'"
  "c' \<in> set (m_seq f xs c) \<Longrightarrow> reaches c c'"
  "c' \<in> set (m_alts f as c) \<Longrightarrow> reaches c c'"
proof (induction f x c and f xs c and f as c arbitrary: c' and c' and c'
       rule: m_item_m_seq_m_alts.induct)
  case (1 f cs c)
  then have c': "c' = advance 1 c" and "snd c \<noteq> []"
    by (auto split: list.splits if_splits)
  then have "1 \<le> length (snd c)" by (cases "snd c") auto
  then show ?case using c' by (simp add: reaches_advance)
next
  case (2 f cs lo hi greedy c)
  then obtain n where n: "n \<in> set (rep_counts lo hi greedy (length (takeWhile (in_cset f cs) (snd c))))"
    and c': "c' = advance n c" by auto
  from n have "n \<le> length (takeWhile (in_cset f cs) (snd c))"
    using rep_counts_le by blast
  also have "\<dots> \<le> length (snd c)" by (rule length_takeWhile_le)
  finally show ?case using c' by (simp add: reaches_advance)
next
  case (9 f x xs c)
  then obtain d where "d \<in> set (m_item f x c)" "c' \<in> set (m_seq f xs d)" by auto
  with 9 show ?case by (blast intro: reaches_trans)
qed (auto simp: reaches_refl split: if_splits)

lemma reaches_length: "reaches c c' \<Longrightarrow> length (snd c') \<le> length (snd c)"
  by (auto simp: reaches_def)

text \<open>
  The match that \<open>re.sub\<close> takes at a position: the first end position in priority
  order; when the previous match was empty and ended here (\<open>must_advance\<close>), the first
  one that consumes a character.
\<close>

definition first_match :: "flags \<Rightarrow> regex \<Rightarrow> bool \<Rightarrow> cursor \<Rightarrow> cursor option" where
  "first_match f r must_advance c =
     List.find (\<lambda>c'. \<not> must_advance \<or> length (snd c') < length (snd c)) (m_seq f r c)"

lemma find_SomeD: "List.find P xs = Some x \<Longrightarrow> x \<in> set xs \<and> P x"
  by (induction xs) (auto split: if_splits)

lemma first_match_reaches: "first_match f r adv c = Some c' \<Longrightarrow> reaches c c'"
  unfolding first_match_def by (blast dest: find_SomeD intro: m_reaches(2))

lemma first_match_advances:
  "first_match f r True c = Some c' \<Longrightarrow> length (snd c') < length (snd c)"
  unfolding first_match_def by (auto dest: find_SomeD)

lemma first_match_measure:
  assumes "first_match f r adv (b, a) = Some (b', a')"
  shows "2 * length a' + (if length a' = length a then 0 else 1)
         < 2 * length a + (if adv then 0 else (1::nat))"
proof -
  from first_match_reaches [OF assms] have le: "length a' \<le> length a"
    by (auto dest: reaches_length)
  show ?thesis
  proof (cases adv)
    case True
    with assms first_match_advances [of f r "(b, a)" "(b', a')"] show ?thesis by simp
  next
    case False
    with le show ?thesis by auto
  qed
qed

text \<open>
  \<open>re.sub(pattern, repl, text)\<close>: scan from the left; at a match, emit the replacement
  and go on from the end of the match; elsewhere copy one character.
\<close>

function sub_from :: "flags \<Rightarrow> regex \<Rightarrow> ustring \<Rightarrow> bool \<Rightarrow> ustring \<Rightarrow> ustring \<Rightarrow> ustring" where
  "sub_from f r repl adv b a =
     (case first_match f r adv (b, a) of
        Some (b', a') \<Rightarrow> repl @ sub_from f r repl (length a' = length a) b' a'
      | None \<Rightarrow> (case a of [] \<Rightarrow> []
                 | x # xs \<Rightarrow> x # sub_from f r repl False (x # b) xs))"
  by pat_completeness auto
termination
  apply (relation "measure (\<lambda>(f, r, repl, adv, b, a). 2 * length a + (if adv then 0 else 1))")
    apply simp
   apply (auto dest!: first_match_measure split: if_splits)
  done

declare sub_from.simps [simp del]

definition re_sub :: "flags \<Rightarrow> regex \<Rightarrow> ustring \<Rightarrow> ustring \<Rightarrow> ustring" where
  "re_sub f r repl s = sub_from f r repl False [] s"

subsection \<open>Writing patterns\<close>

definition lit :: "string \<Rightarrow> regex" where
  "lit s = map (\<lambda>c. Atom (Lit (Ch c))) s"

abbreviation star :: "cset \<Rightarrow> re" where "star cs \<equiv> Rep cs 0 None True"
abbreviation plus :: "cset \<Rightarrow> re" where "plus cs \<equiv> Rep cs 1 None True"
abbreviation opt :: "cset \<Rightarrow> re" where "opt cs \<equiv> Rep cs 0 (Some 1) True"
abbreviation lazy_star :: "cset \<Rightarrow> re" where "lazy_star cs \<equiv> Rep cs 0 None False"
abbreviation chr :: "char \<Rightarrow> cset" where "chr c \<equiv> Lit (Ch c)"
abbreviation upper_AZ :: cset where "upper_AZ \<equiv> Range (Ch CHR ''A'') (Ch CHR ''Z'')"
abbreviation lower_az :: cset where "lower_az \<equiv> Range (Ch CHR ''a'') (Ch CHR ''z'')"

text \<open>\<open>^text\s*$\<close>, the shape of most line patterns.\<close>

definition whole_line :: "string \<Rightarrow> regex" where
  "whole_line s = Bol # lit s @ [star Space, Eol]"

text \<open>\<open>a\s+r\s+t\<close> ...: the letters of a word spaced out.\<close>

fun spaced :: "string \<Rightarrow> regex" where
  "spaced [] = []"
| "spaced [c] = [Atom (chr c)]"
| "spaced (c # d # cs) = Atom (chr c) # plus Space # spaced (d # cs)"

definition no_flags :: flags where
  "no_flags = \<lparr>ignorecase = False, multiline = False, dotall = False\<rparr>"

definition icase :: flags where
  "icase = \<lparr>ignorecase = True, multiline = False, dotall = False\<rparr>"

definition line_flags :: flags where
  "line_flags = \<lparr>ignorecase = False, multiline = True, dotall = False\<rparr>"

definition block_flags :: flags where
  "block_flags = \<lparr>ignorecase = True, multiline = True, dotall = True\<rparr>"

section \<open>The pattern tables of \<open>pdf.py\<close>\<close>

definition SKIP_PAGE_PATTERNS :: "regex list" where
  "SKIP_PAGE_PATTERNS =
    [lit ''You may also like'',
     lit ''To cite this article:'',
     lit ''View the article online for updates'',
     lit ''This content was downloaded from IP address'']"

definition REMOVE_BLOCKS :: "regex list" where
  "REMOVE_BLOCKS =
    [lit ''HAL Id:'' @ [lazy_star Any,
       Lookahead [lit ''From sedimentary'', lit ''Abstract'', lit ''Introduction'',
                  [Atom (Lit NL), Atom (Lit NL), Atom upper_AZ, Atom lower_az]]],
     lit ''Source:'' @ [lazy_star Any] @ lit ''Stable URL:'' @ [lazy_star Any,
       Lookahead [lit ''ABSTRACT'', lit ''Abstract'', lit ''Introduction'']],
     lit ''JSTOR is a not-for-profit service'' @ [lazy_star Any,
       Lookahead [lit ''ABSTRACT'', lit ''Abstract'', [Rep upper_AZ 2 None True]]],
     lit ''Your use of the JSTOR archive'' @ [lazy_star Any,
       Lookahead [[Atom (Lit NL), Atom (Lit NL)]]],
     lit ''This content downloaded from'' @ [lazy_star Any,
       Lookahead [[Atom (Lit NL), Atom (Lit NL)], [Atom (Lit NL), Atom upper_AZ]]]]"

definition REMOVE_PATTERNS :: "regex list" where
  "REMOVE_PATTERNS =
    [lit ''This content was downloaded from IP address'' @ [lazy_star Any,
       Lookahead [[Atom (Lit NL)], [Eol]]],
     lit ''This content downloaded from'' @ [star Any, Eol],
     lit ''All use subject to https://about.jstor.org/terms'' @ [star Space, Eol],
     whole_line ''OPEN ACCESS'',
     whole_line ''RECEIVED'',
     whole_line ''REVISED'',
     whole_line ''ACCEPTED FOR PUBLICATION'',
     whole_line ''PUBLISHED'',
     [Bol, Rep Digit 1 (Some 2) True, plus Space, plus Word, plus Space,
      Rep Digit 4 (Some 4) True, star Space, Eol],
     whole_line ''Original content from'',
     whole_line ''this work may be used'',
     whole_line ''under the terms of the'',
     whole_line ''Creative Commons'',
     Bol # lit ''Attribution '' @ [Atom Digit, Atom (chr CHR ''.''), Atom Digit] @ lit '' licence''
       @ [opt (chr CHR ''.''), star Space, Eol],
     whole_line ''Any further distribution'',
     whole_line ''of this work must'',
     whole_line ''maintain attribution to'',
     whole_line ''the author(s) and the title'',
     Bol # lit ''of the work'' @ [opt (chr CHR '','')] @ lit '' journal'' @ [star Space, Eol],
     whole_line ''citation and DOI.'',
     Bol # lit ''http'' @ [opt (chr CHR ''s'')] @ lit ''://doi.org/'' @ [star Any, Eol],
     Bol # lit ''http'' @ [opt (chr CHR ''s'')] @ lit ''://'' @ [plus NonSpace, star Space, Eol],
     Bol # lit ''www.'' @ [plus (Union [lower_az, chr CHR ''-'']), Atom (chr CHR ''.''),
       Alt [lit ''org'', lit ''com'', lit ''edu''], star Space, Eol],
     Bol # lit ''Environ. Res. Lett.'' @ [star Any, Eol],
     [Atom (chr (CHR 0xA9)), star Space, Rep Digit 4 (Some 4) True, plus Space]
       @ lit ''The Author(s).'' @ [star Any, Eol],
     [Bol, Atom upper_AZ, plus Space, Atom upper_AZ, plus lower_az, plus Space] @ lit ''et''
       @ [plus Space] @ lit ''al'' @ [star Space, Eol],
     whole_line ''IOP Publishing'',
     Bol # spaced ''articleinfo'' @ [star Space, Eol],
     Bol # spaced ''summary'' @ [star Space, Eol],
     whole_line ''Article history:'',
     Bol # lit ''Received'' @ [star Any] @ lit ''revised'' @ [star Any] @ lit ''Accepted''
       @ [star Any, Eol],
     Bol # lit ''Available online'' @ [star Any, Eol],
     Bol # lit ''This manuscript was handled by'' @ [star Any, Eol],
     whole_line ''Keywords:'']"

text \<open>\<open>^\d+\s*$\<close>, \<open>[ \t]+\<close> and \<open>\n{3,}\<close> of \<open>clean_text\<close>.\<close>

definition page_number_re :: regex where
  "page_number_re = [Bol, plus Digit, star Space, Eol]"

definition spaces_re :: regex where
  "spaces_re = [plus (Union [Lit SP, Lit TAB])]"

definition newlines_re :: regex where
  "newlines_re = [Rep (Lit NL) 3 None True]"

section \<open>The line classifier\<close>

text \<open>\<open>[.!?]\s*$\<close> and \<open>\d{4}[a-z]?\)\s*\.?\s*$\<close> of \<open>_ends_sentence\<close>.\<close>

definition terminal_re :: regex where
  "terminal_re = [Atom (Union [chr CHR ''.'', chr CHR ''!'', chr CHR ''?'']), star Space, Eol]"

definition citation_re :: regex where
  "citation_re = [Rep Digit 4 (Some 4) True, opt lower_az, Atom (chr CHR '')''), star Space,
                  opt (chr CHR ''.''), star Space, Eol]"

definition word_end :: "string \<Rightarrow> regex" where
  "word_end w = Boundary # lit w @ [Eol]"

definition continuation_endings :: "regex list" where
  "continuation_endings =
    [[Atom (chr CHR '',''), Eol],
     [Atom (chr CHR '';''), Eol],
     word_end ''and'', word_end ''or'', word_end ''the'', word_end ''a'', word_end ''an'',
     word_end ''of'', word_end ''in'', word_end ''to'', word_end ''for'', word_end ''with'',
     word_end ''by'', word_end ''from'', word_end ''that'', word_end ''which'', word_end ''as'',
     word_end ''at'', word_end ''on'', word_end ''is'', word_end ''are'', word_end ''was'',
     word_end ''were'', word_end ''et'', word_end ''al'',
     [Atom (chr CHR ''(''), star Any, Eol]]"

definition punct_end_re :: regex where
  "punct_end_re = [Atom (Union [chr CHR ''.'', chr CHR ''!'', chr CHR ''?'', chr CHR '':'',
                                 chr CHR '';'', chr CHR '','']), Eol]"

definition ends_sentence :: "ustring \<Rightarrow> bool" where
  "ends_sentence line =
     (if line = [] then True
      else if re_search no_flags terminal_re line then True
      else if re_search no_flags citation_re line then True
      else if endswith line (u '':'') then True
      else if list_ex (\<lambda>pattern. re_search icase pattern line) continuation_endings then False
      else if length line < 60 \<and> \<not> re_search no_flags punct_end_re line then False
      else False)"

text \<open>\<open>^\d+\.?\d*\.?\s+[A-Z]\<close> of \<open>_is_heading\<close>.\<close>

definition numbered_re :: regex where
  "numbered_re = [Bol, plus Digit, opt (chr CHR ''.''), star Digit, opt (chr CHR ''.''),
                  plus Space, Atom upper_AZ]"

definition heading_words :: "ustring list" where
  "heading_words = map u [''abstract'', ''introduction'', ''methods'', ''results'',
     ''discussion'', ''conclusion'', ''references'', ''acknowledgment'',
     ''keywords'', ''summary'', ''background'']"

definition first_word :: "ustring \<Rightarrow> ustring" where
  "first_word line = (case split_ws line of [] \<Rightarrow> []
                      | w # _ \<Rightarrow> rstrip_chars (u ''.:'') (lower w))"

definition is_heading :: "ustring \<Rightarrow> bool" where
  "is_heading line =
     (if line = [] then False
      else if re_match no_flags numbered_re line then True
      else if str_isupper line \<and> length line < 60 then True
      else if List.member heading_words (first_word line) \<and> length line < 40 then True
      else if length line < 30 \<and> is_upper_char (hd line) \<and> \<not> endswith line (u '','')
        then length (split_ws line) \<le> 4
      else False)"

section \<open>The line rejoiner\<close>

text \<open>
  One pass of the inner \<open>while\<close> of \<open>_rejoin_broken_lines\<close> once the candidate
  \<open>next_line\<close> is fixed: stop (\<open>break\<close>), or go on with a longer \<open>line\<close>.
\<close>

datatype decision = Break | Continue ustring

definition join_decision :: "ustring \<Rightarrow> ustring \<Rightarrow> decision" where
  "join_decision line next_line =
     (if is_heading line then Break
      else if is_heading next_line then Break
      else if endswith line (u ''-'') \<and> \<not> endswith line (u '' -'')
        then Continue (butlast line @ next_line)
      else if \<not> ends_sentence line then Continue (line @ SP # next_line)
      else Break)"

text \<open>The condition under which a blank line is taken for a page break.\<close>

definition bridges :: "ustring \<Rightarrow> ustring \<Rightarrow> bool" where
  "bridges line after_empty =
     (after_empty \<noteq> [] \<and> is_lower_char (hd after_empty) \<and>
      \<not> ends_sentence line \<and> \<not> is_heading after_empty)"

text \<open>
  The inner \<open>while\<close>. The second argument is \<open>lines[i+1:]\<close>; the result is the finished
  \<open>line\<close> and the lines from which the outer loop goes on (\<open>lines[i+1:]\<close> after its
  \<open>i += 1\<close>).
\<close>

fun extend_line :: "ustring \<Rightarrow> ustring list \<Rightarrow> ustring \<times> ustring list" where
  "extend_line line [] = (line, [])"
| "extend_line line (nxt # rest) =
     (if strip nxt = [] then
        (case rest of
           [] \<Rightarrow> (line, nxt # rest)
         | a # rest' \<Rightarrow>
             if bridges line (strip a) then
               (case join_decision line (strip a) of
                  Break \<Rightarrow> (line, a # rest')
                | Continue line' \<Rightarrow> extend_line line' rest')
             else (line, nxt # rest))
      else
        (case join_decision line (strip nxt) of
           Break \<Rightarrow> (line, nxt # rest)
         | Continue line' \<Rightarrow> extend_line line' rest))"

lemma extend_line_length: "length (snd (extend_line line rest)) \<le> length rest"
proof (induction line rest rule: extend_line.induct)
  case (1 line)
  show ?case by simp
next
  case (2 line nxt rest)
  show ?case
  proof (cases "strip nxt = []")
    case True
    show ?thesis
    proof (cases rest)
      case Nil
      with True show ?thesis by simp
    next
      case (Cons a rest')
      show ?thesis
      proof (cases "bridges line (strip a)")
        case b: True
        show ?thesis
        proof (cases "join_decision line (strip a)")
          case Break
          with True Cons b show ?thesis by simp
        next
          case (Continue line')
          with 2(1) [OF True Cons b Continue] True Cons b show ?thesis by simp
        qed
      next
        case False
        with True Cons show ?thesis by simp
      qed
    qed
  next
    case False
    show ?thesis
    proof (cases "join_decision line (strip nxt)")
      case Break
      with False show ?thesis by simp
    next
      case (Continue line')
      with 2(2) [OF False Continue] False show ?thesis by simp
    qed
  qed
qed

text \<open>The outer \<open>while\<close>: one finished line per round.\<close>

function rejoin_lines :: "ustring list \<Rightarrow> ustring list" where
  "rejoin_lines [] = []"
| "rejoin_lines (l # rest) =
     (case extend_line (strip l) rest of (line, rest') \<Rightarrow> line # rejoin_lines rest')"
  by pat_completeness auto
termination
proof (relation "measure length", goal_cases)
  case 1
  show ?case by simp
next
  case (2 l rest line rest')
  then have "rest' = snd (extend_line (strip l) rest)"
    by (metis snd_conv)
  then have "length rest' \<le> length rest"
    by (simp add: extend_line_length)
  then show ?case by simp
qed

definition rejoin_broken_lines :: "ustring \<Rightarrow> ustring" where
  "rejoin_broken_lines text = join_nl (rejoin_lines (split_nl text))"

section \<open>\<open>clean_text\<close> and \<open>extract_text\<close>\<close>

definition ligatures :: "(uchar \<times> ustring) list" where
  "ligatures = [(Lig Lig_fi, u ''fi''), (Lig Lig_fl, u ''fl''), (Lig Lig_ff, u ''ff''),
                (Lig Lig_ffi, u ''ffi''), (Lig Lig_ffl, u ''ffl'')]"

definition fix_ligatures :: "ustring \<Rightarrow> ustring" where
  "fix_ligatures text = foldl (\<lambda>t (lig, replacement). replace_char lig replacement t) text ligatures"

definition remove_blocks :: "ustring \<Rightarrow> ustring" where
  "remove_blocks text = foldl (\<lambda>t pattern. re_sub block_flags pattern [] t) text REMOVE_BLOCKS"

definition remove_patterns :: "ustring \<Rightarrow> ustring" where
  "remove_patterns text = foldl (\<lambda>t pattern. re_sub line_flags pattern [] t) text REMOVE_PATTERNS"

definition remove_page_numbers :: "ustring \<Rightarrow> ustring" where
  "remove_page_numbers text = re_sub line_flags page_number_re [] text"

definition strip_boilerplate :: "ustring \<Rightarrow> ustring" where
  "strip_boilerplate text = remove_page_numbers (remove_patterns (remove_blocks text))"

definition collapse_spaces :: "ustring \<Rightarrow> ustring" where
  "collapse_spaces text = re_sub no_flags spaces_re [SP] text"

definition normalize_newlines :: "ustring \<Rightarrow> ustring" where
  "normalize_newlines text = re_sub no_flags newlines_re [NL, NL] text"

definition strip_lines :: "ustring \<Rightarrow> ustring" where
  "strip_lines text = join_nl (map strip (split_nl text))"

definition clean_text :: "ustring \<Rightarrow> ustring" where
  "clean_text text =
     (let text = fix_ligatures text;
          text = strip_boilerplate text;
          text = collapse_spaces text;
          text = normalize_newlines text;
          text = rejoin_broken_lines text;
          text = normalize_newlines text;
          text = strip_lines text
      in strip text)"

definition is_skip_page :: "ustring \<Rightarrow> bool" where
  "is_skip_page text = list_ex (\<lambda>pattern. re_search icase pattern text) SKIP_PAGE_PATTERNS"

text \<open>
  \<open>extract_text\<close> on the page texts that the PDF decoder yields: the pages that are
  neither skipped nor blank, joined by a newline, then cleaned.
\<close>

definition text_parts :: "ustring list \<Rightarrow> ustring list" where
  "text_parts pages = filter (\<lambda>text. \<not> is_skip_page text \<and> strip text \<noteq> []) pages"

definition extract_text :: "ustring list \<Rightarrow> ustring" where
  "extract_text pages = clean_text (join_nl (text_parts pages))"

section \<open>Degenerate documents\<close>

text \<open>
  Claim C9. \<open>clean_text\<close> is a total function with no failing branch (every index
  into a string or list of the source is guarded), and \<open>clean_text("")\<close> is the empty
  string. A document whose pages are all blank or all classified as skip pages, in
  particular a document with no page, leaves \<open>text_parts\<close> empty, and \<open>extract_text\<close>
  returns the empty string.
\<close>

theorem extract_text_degenerate:
  "clean_text [] = [] \<and>
   ((\<forall>text \<in> set pages. strip text = [] \<or> is_skip_page text) \<longrightarrow> extract_text pages = [])"
proof (intro conjI impI)
  show e: "clean_text [] = []" by code_simp
  assume "\<forall>text \<in> set pages. strip text = [] \<or> is_skip_page text"
  then have "text_parts pages = []"
    by (auto simp: text_parts_def filter_empty_conv)
  then show "extract_text pages = []"
    by (simp add: extract_text_def e)
qed

theorem extract_text_degenerate_witness:
  "strip [] = [] \<and> strip (u ''  '') = [] \<and> is_skip_page (u ''You may also like: other papers'')
   \<and> extract_text [[], u ''  '', u ''You may also like: other papers''] = []"
proof -
  have h: "strip [] = [] \<and> strip (u ''  '') = [] \<and>
           is_skip_page (u ''You may also like: other papers'')"
    by code_simp
  then have "\<forall>text \<in> set [[], u ''  '', u ''You may also like: other papers''].
               strip text = [] \<or> is_skip_page text"
    by simp
  with extract_text_degenerate [of "[[], u ''  '', u ''You may also like: other papers'']"] h
  show ?thesis by blast
qed

section \<open>Properties of the line rejoiner\<close>

lemma is_heading_Nil: "\<not> is_heading []"
  by (simp add: is_heading_def)

lemma join_decision_heading_next: "is_heading n \<Longrightarrow> join_decision line n = Break"
  by (simp add: join_decision_def)

lemma join_decision_heading_line: "is_heading line \<Longrightarrow> join_decision line n = Break"
  by (simp add: join_decision_def)

lemma bridges_heading: "is_heading a \<Longrightarrow> \<not> bridges line a"
  by (simp add: bridges_def)

lemma extend_line_stops_at_heading:
  assumes h: "is_heading (strip h)"
  shows "extend_line line (xs @ h # ys)
         = (fst (extend_line line xs), snd (extend_line line xs) @ h # ys)"
proof (induction line xs rule: extend_line.induct)
  case (1 line)
  from h have "strip h \<noteq> []" using is_heading_Nil by auto
  with h show ?case by (simp add: join_decision_heading_next)
next
  case (2 line nxt rest)
  show ?case
  proof (cases "strip nxt = []")
    case blank: True
    show ?thesis
    proof (cases rest)
      case Nil
      with blank h show ?thesis by (simp add: bridges_heading)
    next
      case (Cons a rest')
      show ?thesis
      proof (cases "bridges line (strip a)")
        case b: True
        show ?thesis
        proof (cases "join_decision line (strip a)")
          case Break
          with blank Cons b show ?thesis by simp
        next
          case (Continue line')
          with 2(1) [OF blank Cons b Continue] blank Cons b show ?thesis by simp
        qed
      next
        case False
        with blank Cons show ?thesis by simp
      qed
    qed
  next
    case nonblank: False
    show ?thesis
    proof (cases "join_decision line (strip nxt)")
      case Break
      with nonblank show ?thesis by simp
    next
      case (Continue line')
      with 2(2) [OF nonblank Continue] nonblank show ?thesis by simp
    qed
  qed
qed

lemma rejoin_lines_split_at_heading:
  assumes h: "is_heading (strip h)"
  shows "rejoin_lines (xs @ h # ys) = rejoin_lines xs @ rejoin_lines (h # ys)"
proof (induction xs rule: rejoin_lines.induct)
  case 1
  show ?case by simp
next
  case (2 l rest)
  obtain line rest' where e: "extend_line (strip l) rest = (line, rest')"
    by (cases "extend_line (strip l) rest")
  then have "extend_line (strip l) (rest @ h # ys) = (line, rest' @ h # ys)"
    using extend_line_stops_at_heading [OF h, of "strip l" rest ys] by simp
  moreover have "rejoin_lines (rest' @ h # ys) = rejoin_lines rest' @ rejoin_lines (h # ys)"
    using 2 [OF e [symmetric]] by simp
  ultimately show ?case using e by simp
qed

lemma extend_line_of_heading:
  assumes "is_heading line"
  shows "\<exists>d\<le>1. extend_line line ys = (line, drop d ys)"
proof (cases ys)
  case Nil
  then show ?thesis by (intro exI [of _ 0]) simp
next
  case (Cons nxt rest)
  show ?thesis
  proof (cases "strip nxt = []")
    case blank: True
    show ?thesis
    proof (cases rest)
      case Nil
      with blank Cons show ?thesis by (intro exI [of _ 0]) simp
    next
      case c2: (Cons a rest')
      show ?thesis
      proof (cases "bridges line (strip a)")
        case True
        with blank Cons c2 assms show ?thesis
          by (intro exI [of _ 1]) (simp add: join_decision_heading_line)
      next
        case False
        with blank Cons c2 show ?thesis by (intro exI [of _ 0]) simp
      qed
    qed
  next
    case False
    with Cons assms show ?thesis
      by (intro exI [of _ 0]) (simp add: join_decision_heading_line)
  qed
qed

lemma join_decision_hyphen:
  "\<not> is_heading line \<Longrightarrow> \<not> is_heading n \<Longrightarrow> endswith line (u ''-'') \<Longrightarrow>
   \<not> endswith line (u '' -'') \<Longrightarrow> join_decision line n = Continue (butlast line @ n)"
  by (simp add: join_decision_def)

lemma join_decision_open:
  "\<not> is_heading line \<Longrightarrow> \<not> is_heading n \<Longrightarrow> \<not> ends_sentence line \<Longrightarrow>
   join_decision line n =
     Continue (if endswith line (u ''-'') \<and> \<not> endswith line (u '' -'')
               then butlast line @ n else line @ SP # n)"
  by (simp add: join_decision_def)

text \<open>
  Claim C1, as amended. A physical line whose trimmed text is a heading is emitted,
  trimmed, as a logical line of its own: whatever the current line is (merged or not),
  extending it over the lines before the heading stops in front of the heading, and the
  heading absorbs nothing; the lines after it are rejoined afresh, after at most one
  skipped blank line. The example of the specification stays two lines.
\<close>

theorem heading_line_kept_apart:
  "(is_heading (strip h) \<longrightarrow>
      (\<forall>line. extend_line line (xs @ h # ys)
          = (fst (extend_line line xs), snd (extend_line line xs) @ h # ys))
      \<and> (\<exists>d\<le>1. rejoin_lines (xs @ h # ys)
          = rejoin_lines xs @ strip h # rejoin_lines (drop d ys)))
   \<and> rejoin_broken_lines (u ''2. Methods'' @ [NL] @ u ''We used a kriging approach.'')
       = u ''2. Methods'' @ [NL] @ u ''We used a kriging approach.''"
proof (intro conjI impI)
  assume h: "is_heading (strip h)"
  show "\<forall>line. extend_line line (xs @ h # ys)
            = (fst (extend_line line xs), snd (extend_line line xs) @ h # ys)"
    using extend_line_stops_at_heading [OF h] by blast
  from extend_line_of_heading [OF h, of ys]
  obtain d where d: "d \<le> 1" "extend_line (strip h) ys = (strip h, drop d ys)" by blast
  then have "rejoin_lines (h # ys) = strip h # rejoin_lines (drop d ys)" by simp
  with rejoin_lines_split_at_heading [OF h, of xs ys] d(1)
  show "\<exists>d\<le>1. rejoin_lines (xs @ h # ys)
            = rejoin_lines xs @ strip h # rejoin_lines (drop d ys)"
    by auto
next
  show "rejoin_broken_lines (u ''2. Methods'' @ [NL] @ u ''We used a kriging approach.'')
       = u ''2. Methods'' @ [NL] @ u ''We used a kriging approach.''"
    by code_simp
qed

theorem heading_line_kept_apart_witness:
  "is_heading (strip (u ''2. Methods '')) \<and>
   (\<exists>d\<le>1. rejoin_lines ([u ''as shown in'', u ''the figure.''] @ u ''2. Methods '' #
               [[], u ''we used a kriging approach.''])
      = rejoin_lines [u ''as shown in'', u ''the figure.''] @ strip (u ''2. Methods '') #
        rejoin_lines (drop d [[], u ''we used a kriging approach.'']))"
proof -
  have h: "is_heading (strip (u ''2. Methods ''))" by code_simp
  with heading_line_kept_apart [of "u ''2. Methods ''" "[u ''as shown in'', u ''the figure.'']"
         "[[], u ''we used a kriging approach.'']"]
  show ?thesis by blast
qed

text \<open>
  Claim C1 as stated fails for a physical line that is a heading only before trimming:
  \<open>"Hello, "\<close> is a heading (short, capitalised, not ending in a comma), its trimmed text
  \<open>"Hello,"\<close> is not, and the line is merged with the next one.
\<close>

theorem heading_line_counterexample:
  "is_heading (u ''Hello, '') \<and>
   rejoin_broken_lines (u ''Hello, '' @ [NL] @ u ''world'') = u ''Hello, world''"
  by code_simp

text \<open>
  Claim C3, as amended. When the next line is blank, the line \<open>a\<close> after it is not
  blank, starts with a lower-case letter and is not a heading, the current line does
  not end a sentence and is not itself a heading, the blank line is skipped and the
  current line is joined with \<open>a\<close> (without the hyphen for a word break, with one space
  otherwise), and extension goes on from the joined line. When the next line is blank
  and one of the conditions on the line after it fails, or there is no such line,
  extension stops. The example of the specification gives one logical line.
\<close>

theorem page_break_bridging:
  "(strip nxt = [] \<and> strip a \<noteq> [] \<and> is_lower_char (hd (strip a)) \<and> \<not> ends_sentence line \<and>
    \<not> is_heading (strip a) \<and> \<not> is_heading line
    \<longrightarrow> extend_line line (nxt # a # rest)
        = extend_line (if endswith line (u ''-'') \<and> \<not> endswith line (u '' -'')
                       then butlast line @ strip a else line @ SP # strip a) rest)
   \<and> (strip nxt = [] \<and>
       (rest = [] \<or> strip (hd rest) = [] \<or> \<not> is_lower_char (hd (strip (hd rest))) \<or>
        ends_sentence line \<or> is_heading (strip (hd rest)))
    \<longrightarrow> extend_line line (nxt # rest) = (line, nxt # rest))
   \<and> rejoin_broken_lines (u ''erosion rates increased over the study'' @ [NL, NL] @
          u ''period due to storm activity.'')
       = u ''erosion rates increased over the study period due to storm activity.''"
proof (intro conjI impI)
  assume a: "strip nxt = [] \<and> strip a \<noteq> [] \<and> is_lower_char (hd (strip a)) \<and>
    \<not> ends_sentence line \<and> \<not> is_heading (strip a) \<and> \<not> is_heading line"
  then have "bridges line (strip a)" by (simp add: bridges_def)
  with a show "extend_line line (nxt # a # rest)
        = extend_line (if endswith line (u ''-'') \<and> \<not> endswith line (u '' -'')
                       then butlast line @ strip a else line @ SP # strip a) rest"
    by (simp add: join_decision_open)
next
  assume a: "strip nxt = [] \<and>
       (rest = [] \<or> strip (hd rest) = [] \<or> \<not> is_lower_char (hd (strip (hd rest))) \<or>
        ends_sentence line \<or> is_heading (strip (hd rest)))"
  show "extend_line line (nxt # rest) = (line, nxt # rest)"
  proof (cases rest)
    case Nil
    with a show ?thesis by simp
  next
    case (Cons b rest')
    with a have "\<not> bridges line (strip b)" by (auto simp: bridges_def)
    with a Cons show ?thesis by simp
  qed
next
  show "rejoin_broken_lines (u ''erosion rates increased over the study'' @ [NL, NL] @
          u ''period due to storm activity.'')
       = u ''erosion rates increased over the study period due to storm activity.''"
    by code_simp
qed

theorem page_break_bridging_witness:
  "strip [] = [] \<and> strip (u ''period due '') \<noteq> [] \<and> is_lower_char (hd (strip (u ''period due ''))) \<and>
   \<not> ends_sentence (u ''over the study'') \<and> \<not> is_heading (strip (u ''period due '')) \<and>
   \<not> is_heading (u ''over the study'') \<and>
   extend_line (u ''over the study'') [[], u ''period due '', u ''to storms.'']
     = extend_line (u ''over the study period due'') [u ''to storms.''] \<and>
   ends_sentence (u ''over the study.'') \<and>
   extend_line (u ''over the study.'') [[], u ''period due ''] = (u ''over the study.'', [[], u ''period due ''])"
proof -
  have h1: "strip [] = [] \<and> strip (u ''period due '') \<noteq> [] \<and>
     is_lower_char (hd (strip (u ''period due ''))) \<and>
     \<not> ends_sentence (u ''over the study'') \<and> \<not> is_heading (strip (u ''period due '')) \<and>
     \<not> is_heading (u ''over the study'')"
    by code_simp
  have h2: "ends_sentence (u ''over the study.'')" by code_simp
  have e: "(if endswith (u ''over the study'') (u ''-'') \<and> \<not> endswith (u ''over the study'') (u '' -'')
            then butlast (u ''over the study'') @ strip (u ''period due '')
            else u ''over the study'' @ SP # strip (u ''period due '')) = u ''over the study period due''"
    by code_simp
  note t1 = page_break_bridging [where nxt = "[]" and a = "u ''period due ''"
                                    and line = "u ''over the study''" and rest = "[u ''to storms.'']"]
  from t1 h1 have "extend_line (u ''over the study'') [[], u ''period due '', u ''to storms.'']
     = extend_line (if endswith (u ''over the study'') (u ''-'') \<and> \<not> endswith (u ''over the study'') (u '' -'')
            then butlast (u ''over the study'') @ strip (u ''period due '')
            else u ''over the study'' @ SP # strip (u ''period due '')) [u ''to storms.'']"
    by blast
  then have c1: "extend_line (u ''over the study'') [[], u ''period due '', u ''to storms.'']
     = extend_line (u ''over the study period due'') [u ''to storms.'']"
    unfolding e .
  note t2 = page_break_bridging [where nxt = "[]" and line = "u ''over the study.''"
                                    and rest = "[u ''period due '']"]
  from t2 h1 h2
  have c2: "extend_line (u ''over the study.'') [[], u ''period due ''] = (u ''over the study.'', [[], u ''period due ''])"
    by blast
  from h1 h2 c1 c2 show ?thesis by blast
qed

text \<open>
  Claim C3 as stated fails when the current line is a heading: the conditions of the
  claim hold for \<open>"Methods"\<close>, a blank line and a lower-case line, and the two lines are
  not joined.
\<close>

theorem page_break_bridging_counterexample:
  "strip [] = [] \<and> u ''we measured the erosion rates'' \<noteq> [] \<and>
   is_lower_char (hd (u ''we measured the erosion rates'')) \<and>
   \<not> ends_sentence (u ''Methods'') \<and> \<not> is_heading (u ''we measured the erosion rates'') \<and>
   rejoin_broken_lines (u ''Methods'' @ [NL, NL] @ u ''we measured the erosion rates'')
     = u ''Methods'' @ [NL] @ u ''we measured the erosion rates''"
  by code_simp

text \<open>
  Claim C4, as amended. When the next line is not blank, neither the current line nor
  the next line is a heading, and the current line ends with a hyphen that no space
  precedes, the hyphen is dropped, the trimmed next line is appended with no space, and
  extension goes on from the merged line. \<open>"sedi-"\<close> and \<open>"ment transport"\<close> give
  \<open>"sediment transport"\<close>.
\<close>

theorem hyphen_join:
  "(strip nxt \<noteq> [] \<and> \<not> is_heading line \<and> \<not> is_heading (strip nxt) \<and>
    endswith line (u ''-'') \<and> \<not> endswith line (u '' -'')
    \<longrightarrow> extend_line line (nxt # rest) = extend_line (butlast line @ strip nxt) rest)
   \<and> rejoin_broken_lines (u ''sedi-'' @ [NL] @ u ''ment transport'') = u ''sediment transport''"
proof (intro conjI impI)
  assume "strip nxt \<noteq> [] \<and> \<not> is_heading line \<and> \<not> is_heading (strip nxt) \<and>
    endswith line (u ''-'') \<and> \<not> endswith line (u '' -'')"
  then show "extend_line line (nxt # rest) = extend_line (butlast line @ strip nxt) rest"
    by (simp add: join_decision_hyphen)
next
  show "rejoin_broken_lines (u ''sedi-'' @ [NL] @ u ''ment transport'') = u ''sediment transport''"
    by code_simp
qed

theorem hyphen_join_witness:
  "strip (u ''ment '') \<noteq> [] \<and> \<not> is_heading (u ''the sedi-'') \<and> \<not> is_heading (strip (u ''ment '')) \<and>
   endswith (u ''the sedi-'') (u ''-'') \<and> \<not> endswith (u ''the sedi-'') (u '' -'') \<and>
   extend_line (u ''the sedi-'') [u ''ment '', u ''transport.'']
     = extend_line (butlast (u ''the sedi-'') @ strip (u ''ment '')) [u ''transport.'']"
proof -
  have h: "strip (u ''ment '') \<noteq> [] \<and> \<not> is_heading (u ''the sedi-'') \<and>
           \<not> is_heading (strip (u ''ment '')) \<and>
           endswith (u ''the sedi-'') (u ''-'') \<and> \<not> endswith (u ''the sedi-'') (u '' -'')"
    by code_simp
  with hyphen_join [of "u ''ment ''" "u ''the sedi-''" "[u ''transport.'']"]
  show ?thesis by blast
qed

text \<open>
  Claim C4 as stated fails when the second line of the pair is blank: a blank line is
  not a heading, and \<open>"sedi-"\<close> followed by a blank last line keeps its hyphen.
\<close>

theorem hyphen_join_counterexample:
  "\<not> is_heading (u ''sedi-'') \<and> \<not> is_heading [] \<and>
   endswith (u ''sedi-'') (u ''-'') \<and> \<not> endswith (u ''sedi-'') (u '' -'') \<and>
   rejoin_broken_lines (u ''sedi-'' @ [NL]) = u ''sedi-'' @ [NL]"
  by code_simp

section \<open>Properties of \<open>re.sub\<close> and of the boilerplate stripper\<close>

lemma first_match_None: "m_seq f r c = [] \<Longrightarrow> first_match f r adv c = None"
  by (simp add: first_match_def)

lemma sub_from_no_match:
  "\<not> search_from f r b a \<Longrightarrow> sub_from f r repl adv b a = a"
proof (induction a arbitrary: b adv)
  case Nil
  then have "first_match f r adv (b, []) = None" by (simp add: first_match_None)
  then show ?case by (subst sub_from.simps) simp
next
  case (Cons x xs)
  then have n: "first_match f r adv (b, x # xs) = None" and "\<not> search_from f r (x # b) xs"
    by (simp_all add: first_match_None)
  with Cons.IH [of "x # b" False] show ?case by (subst sub_from.simps) simp
qed

lemma re_sub_no_match: "\<not> re_search f r s \<Longrightarrow> re_sub f r repl s = s"
  by (simp add: re_sub_def re_search_def sub_from_no_match)

lemma sub_from_set: "set (sub_from f r repl adv b a) \<subseteq> set a \<union> set repl"
proof (induction f r repl adv b a rule: sub_from.induct)
  case (1 f r repl adv b a)
  show ?case
  proof (cases "first_match f r adv (b, a)")
    case None
    show ?thesis
    proof (cases a)
      case Nil
      with None show ?thesis by (subst sub_from.simps) simp
    next
      case (Cons x xs)
      with None 1(1) [OF None Cons] show ?thesis by (subst sub_from.simps) auto
    qed
  next
    case (Some c')
    obtain b' a' where c': "c' = (b', a')" by (cases c')
    from first_match_reaches [OF Some] c' have "set a' \<subseteq> set a"
      by (auto simp: reaches_def)
    with 1(2) [OF Some c' [symmetric]] Some c' show ?thesis
      by (subst sub_from.simps) auto
  qed
qed

lemma re_sub_set: "set (re_sub f r repl s) \<subseteq> set s \<union> set repl"
  by (simp add: re_sub_def sub_from_set)

lemma foldl_fixpoint: "(\<And>p. p \<in> set ps \<Longrightarrow> g t p = t) \<Longrightarrow> foldl g t ps = t"
  by (induction ps) auto

lemma foldl_re_sub_set: "set (foldl (\<lambda>t p. re_sub f p [] t) t ps) \<subseteq> set t"
proof (induction ps arbitrary: t)
  case Nil
  show ?case by simp
next
  case (Cons p ps)
  have "set (foldl (\<lambda>t p. re_sub f p [] t) (re_sub f p [] t) ps) \<subseteq> set (re_sub f p [] t)"
    by (rule Cons.IH)
  also have "\<dots> \<subseteq> set t" using re_sub_set [of f p "[]" t] by simp
  finally show ?case by simp
qed

text \<open>
  Claim C5, as amended. A text in which no block pattern, no line pattern and the
  page-number pattern have a match is left unchanged by the boilerplate-stripping
  passes. (One application need not reach such a text, see the counterexample, so
  nothing is said about a second application in general.)
\<close>

theorem strip_boilerplate_fixpoint:
  "(\<forall>p \<in> set REMOVE_BLOCKS. \<not> re_search block_flags p text) \<and>
   (\<forall>p \<in> set REMOVE_PATTERNS. \<not> re_search line_flags p text) \<and>
   \<not> re_search line_flags page_number_re text
   \<longrightarrow> strip_boilerplate text = text"
proof
  assume a: "(\<forall>p \<in> set REMOVE_BLOCKS. \<not> re_search block_flags p text) \<and>
   (\<forall>p \<in> set REMOVE_PATTERNS. \<not> re_search line_flags p text) \<and>
   \<not> re_search line_flags page_number_re text"
  have 1: "remove_blocks text = text"
    unfolding remove_blocks_def using a by (intro foldl_fixpoint) (simp add: re_sub_no_match)
  have 2: "remove_patterns text = text"
    unfolding remove_patterns_def using a by (intro foldl_fixpoint) (simp add: re_sub_no_match)
  have 3: "remove_page_numbers text = text"
    unfolding remove_page_numbers_def using a by (simp add: re_sub_no_match)
  show "strip_boilerplate text = text"
    by (simp add: strip_boilerplate_def 1 2 3)
qed

theorem strip_boilerplate_fixpoint_witness:
  "list_all (\<lambda>p. \<not> re_search block_flags p (u ''The dunes migrate.'')) REMOVE_BLOCKS \<and>
   list_all (\<lambda>p. \<not> re_search line_flags p (u ''The dunes migrate.'')) REMOVE_PATTERNS \<and>
   \<not> re_search line_flags page_number_re (u ''The dunes migrate.'') \<and>
   strip_boilerplate (u ''The dunes migrate.'') = u ''The dunes migrate.''"
proof -
  have h: "list_all (\<lambda>p. \<not> re_search block_flags p (u ''The dunes migrate.'')) REMOVE_BLOCKS \<and>
   list_all (\<lambda>p. \<not> re_search line_flags p (u ''The dunes migrate.'')) REMOVE_PATTERNS \<and>
   \<not> re_search line_flags page_number_re (u ''The dunes migrate.'')"
    by code_simp
  then have "(\<forall>p \<in> set REMOVE_BLOCKS. \<not> re_search block_flags p (u ''The dunes migrate.'')) \<and>
   (\<forall>p \<in> set REMOVE_PATTERNS. \<not> re_search line_flags p (u ''The dunes migrate.'')) \<and>
   \<not> re_search line_flags page_number_re (u ''The dunes migrate.'')"
    by (simp add: list_all_iff)
  with strip_boilerplate_fixpoint [of "u ''The dunes migrate.''"] h
  show ?thesis by blast
qed

text \<open>
  Claim C5 as stated fails: the page-number pass runs last, and removing a numeric line
  can create the blank line that a block pattern waits for. On \<open>"HAL Id:\n1\nab"\<close> the
  first application removes only the line \<open>"1"\<close>; the second one then removes
  \<open>"HAL Id:"\<close>.
\<close>

theorem strip_boilerplate_counterexample:
  "strip_boilerplate (u ''HAL Id:'' @ [NL] @ u ''1'' @ [NL] @ u ''ab'')
     = u ''HAL Id:'' @ [NL, NL] @ u ''ab'' \<and>
   strip_boilerplate (strip_boilerplate (u ''HAL Id:'' @ [NL] @ u ''1'' @ [NL] @ u ''ab''))
     = [NL, NL] @ u ''ab''"
  by code_simp

section \<open>Characters that no stage introduces\<close>

lemma set_strip: "set (strip s) \<subseteq> set s"
proof -
  have "set (strip s) \<subseteq> set (dropWhile is_space s)"
    unfolding strip_def rstrip_def lstrip_def
    using set_dropWhileD [of _ is_space "rev (dropWhile is_space s)"] by auto
  also have "\<dots> \<subseteq> set s" using set_dropWhileD by fastforce
  finally show ?thesis .
qed

lemma split_nl_not_Nil: "split_nl t \<noteq> []"
  by (induction t) (auto split: list.splits)

lemma set_split_nl: "l \<in> set (split_nl t) \<Longrightarrow> set l \<subseteq> set t"
proof (induction t arbitrary: l)
  case Nil
  then show ?case by simp
next
  case (Cons c cs)
  show ?case
  proof (cases "c = NL")
    case True
    with Cons show ?thesis by auto
  next
    case False
    obtain l0 ls where s: "split_nl cs = l0 # ls"
      using split_nl_not_Nil [of cs] by (cases "split_nl cs") auto
    with False Cons.prems have "l = c # l0 \<or> l \<in> set ls" by auto
    then show ?thesis
    proof
      assume "l = c # l0"
      moreover have "set l0 \<subseteq> set cs" using Cons.IH [of l0] s by simp
      ultimately show ?thesis by auto
    next
      assume "l \<in> set ls"
      then have "set l \<subseteq> set cs" using Cons.IH [of l] s by simp
      then show ?thesis by auto
    qed
  qed
qed

lemma set_join_nl: "set (join_nl ls) \<subseteq> \<Union> (set ` set ls) \<union> {NL}"
  by (induction ls rule: join_nl.induct) auto

lemma join_decision_cases:
  "join_decision line n = Continue line' \<Longrightarrow> line' = butlast line @ n \<or> line' = line @ SP # n"
  by (simp add: join_decision_def split: if_splits)

lemma join_decision_set:
  "join_decision line n = Continue line' \<Longrightarrow> set line' \<subseteq> set line \<union> set n \<union> {SP}"
  using join_decision_cases [of line n line'] in_set_butlastD [of _ line] by auto

lemma extend_line_chars:
  assumes "c \<noteq> SP"
  shows "c \<notin> set line \<Longrightarrow> \<forall>l \<in> set rest. c \<notin> set l \<Longrightarrow>
         c \<notin> set (fst (extend_line line rest)) \<and>
         (\<forall>l \<in> set (snd (extend_line line rest)). c \<notin> set l)"
proof (induction line rest rule: extend_line.induct)
  case (1 line)
  then show ?case by simp
next
  case (2 line nxt rest)
  show ?case
  proof (cases "strip nxt = []")
    case blank: True
    show ?thesis
    proof (cases rest)
      case Nil
      with blank 2(3,4) show ?thesis by simp
    next
      case (Cons a rest')
      show ?thesis
      proof (cases "bridges line (strip a)")
        case b: True
        show ?thesis
        proof (cases "join_decision line (strip a)")
          case Break
          with blank Cons b 2(3,4) show ?thesis by simp
        next
          case (Continue line')
          from join_decision_set [OF Continue] set_strip [of a] 2(3,4) Cons assms
          have "c \<notin> set line'" by auto
          moreover from 2(4) Cons have "\<forall>l \<in> set rest'. c \<notin> set l" by simp
          ultimately show ?thesis
            using 2(1) [OF blank Cons b Continue] blank Cons b Continue by simp
        qed
      next
        case False
        with blank Cons 2(3,4) show ?thesis by simp
      qed
    qed
  next
    case nonblank: False
    show ?thesis
    proof (cases "join_decision line (strip nxt)")
      case Break
      with nonblank 2(3,4) show ?thesis by simp
    next
      case (Continue line')
      from join_decision_set [OF Continue] set_strip [of nxt] 2(3,4) assms
      have "c \<notin> set line'" by auto
      moreover from 2(4) have "\<forall>l \<in> set rest. c \<notin> set l" by simp
      ultimately show ?thesis
        using 2(2) [OF nonblank Continue] nonblank Continue by simp
    qed
  qed
qed

lemma rejoin_lines_chars:
  assumes "c \<noteq> SP"
  shows "\<forall>l \<in> set ls. c \<notin> set l \<Longrightarrow> \<forall>l \<in> set (rejoin_lines ls). c \<notin> set l"
proof (induction ls rule: rejoin_lines.induct)
  case 1
  show ?case by simp
next
  case (2 l rest)
  obtain line rest' where e: "extend_line (strip l) rest = (line, rest')"
    by (cases "extend_line (strip l) rest")
  from 2(2) set_strip [of l] have "c \<notin> set (strip l)" "\<forall>l \<in> set rest. c \<notin> set l" by auto
  from extend_line_chars [OF assms this] e
  have "c \<notin> set line" "\<forall>l \<in> set rest'. c \<notin> set l" by simp_all
  with 2(1) [OF e [symmetric]] e show ?case by simp
qed

lemma rejoin_broken_lines_chars:
  assumes "c \<noteq> SP" "c \<noteq> NL" "c \<notin> set text"
  shows "c \<notin> set (rejoin_broken_lines text)"
proof -
  have "\<forall>l \<in> set (split_nl text). c \<notin> set l"
    using set_split_nl assms(3) by blast
  then have "\<forall>l \<in> set (rejoin_lines (split_nl text)). c \<notin> set l"
    by (rule rejoin_lines_chars [OF assms(1)])
  with set_join_nl [of "rejoin_lines (split_nl text)"] assms(2)
  show ?thesis unfolding rejoin_broken_lines_def by blast
qed

lemma strip_lines_chars:
  assumes "c \<noteq> NL" "c \<notin> set text"
  shows "c \<notin> set (strip_lines text)"
proof -
  have "\<forall>l \<in> set (map strip (split_nl text)). c \<notin> set l"
    using set_split_nl [of _ "text"] set_strip assms(2) by fastforce
  with set_join_nl [of "map strip (split_nl text)"] assms(1)
  show ?thesis unfolding strip_lines_def by blast
qed

lemma replace_char_chars:
  "c \<notin> set new \<Longrightarrow> c \<notin> set s \<Longrightarrow> c \<notin> set (replace_char old new s)"
  by (induction s) (auto simp: replace_char_def)

lemma fix_ligatures_no_cr: "CR \<notin> set text \<Longrightarrow> CR \<notin> set (fix_ligatures text)"
  by (simp add: fix_ligatures_def ligatures_def u_def replace_char_chars)

lemma strip_boilerplate_chars: "c \<notin> set text \<Longrightarrow> c \<notin> set (strip_boilerplate text)"
proof -
  assume a: "c \<notin> set text"
  have "set (strip_boilerplate text) \<subseteq> set (remove_patterns (remove_blocks text))"
    unfolding strip_boilerplate_def remove_page_numbers_def
    using re_sub_set [of line_flags page_number_re "[]"] by simp
  also have "\<dots> \<subseteq> set (remove_blocks text)"
    unfolding remove_patterns_def by (rule foldl_re_sub_set)
  also have "\<dots> \<subseteq> set text"
    unfolding remove_blocks_def by (rule foldl_re_sub_set)
  finally show ?thesis using a by blast
qed

lemma collapse_spaces_chars: "c \<noteq> SP \<Longrightarrow> c \<notin> set text \<Longrightarrow> c \<notin> set (collapse_spaces text)"
  unfolding collapse_spaces_def using re_sub_set [of no_flags spaces_re "[SP]" "text"] by auto

lemma normalize_newlines_chars:
  "c \<noteq> NL \<Longrightarrow> c \<notin> set text \<Longrightarrow> c \<notin> set (normalize_newlines text)"
  unfolding normalize_newlines_def using re_sub_set [of no_flags newlines_re "[NL, NL]" "text"] by auto

lemma strip_chars: "c \<notin> set text \<Longrightarrow> c \<notin> set (strip text)"
  using set_strip by blast

lemma cr_neq: "CR \<noteq> SP" "CR \<noteq> NL"
  by simp_all

lemma rejoin_broken_lines_no_cr: "CR \<notin> set t \<Longrightarrow> CR \<notin> set (rejoin_broken_lines t)"
  by (rule rejoin_broken_lines_chars [OF cr_neq])

lemma strip_lines_no_cr: "CR \<notin> set t \<Longrightarrow> CR \<notin> set (strip_lines t)"
  by (rule strip_lines_chars [OF cr_neq(2)])

lemma collapse_spaces_no_cr: "CR \<notin> set t \<Longrightarrow> CR \<notin> set (collapse_spaces t)"
  by (rule collapse_spaces_chars [OF cr_neq(1)])

lemma normalize_newlines_no_cr: "CR \<notin> set t \<Longrightarrow> CR \<notin> set (normalize_newlines t)"
  by (rule normalize_newlines_chars [OF cr_neq(2)])

lemma clean_text_no_cr:
  assumes "CR \<notin> set t"
  shows "CR \<notin> set (clean_text t)"
proof -
  have 1: "CR \<notin> set (fix_ligatures t)" using assms by (rule fix_ligatures_no_cr)
  have 2: "CR \<notin> set (strip_boilerplate (fix_ligatures t))"
    using 1 by (rule strip_boilerplate_chars)
  have 3: "CR \<notin> set (collapse_spaces (strip_boilerplate (fix_ligatures t)))"
    using 2 by (rule collapse_spaces_no_cr)
  have 4: "CR \<notin> set (normalize_newlines (collapse_spaces (strip_boilerplate (fix_ligatures t))))"
    using 3 by (rule normalize_newlines_no_cr)
  have 5: "CR \<notin> set (rejoin_broken_lines (normalize_newlines (collapse_spaces
              (strip_boilerplate (fix_ligatures t)))))"
    using 4 by (rule rejoin_broken_lines_no_cr)
  have 6: "CR \<notin> set (normalize_newlines (rejoin_broken_lines (normalize_newlines
              (collapse_spaces (strip_boilerplate (fix_ligatures t))))))"
    using 5 by (rule normalize_newlines_no_cr)
  have 7: "CR \<notin> set (strip_lines (normalize_newlines (rejoin_broken_lines (normalize_newlines
              (collapse_spaces (strip_boilerplate (fix_ligatures t)))))))"
    using 6 by (rule strip_lines_no_cr)
  have 8: "CR \<notin> set (strip (strip_lines (normalize_newlines (rejoin_broken_lines
              (normalize_newlines (collapse_spaces (strip_boilerplate (fix_ligatures t))))))))"
    using 7 by (rule strip_chars)
  show ?thesis unfolding clean_text_def Let_def by (rule 8)
qed

text \<open>
  Claim C8, as amended. No stage of \<open>clean_text\<close> introduces a carriage return: when
  the input of a stage holds none, neither does its output, and the same holds for
  \<open>clean_text\<close> as a whole. (No stage removes or converts one either, apart from trimming
  at the ends of lines.)
\<close>

theorem carriage_return_not_introduced:
  "CR \<notin> set text \<longrightarrow>
     CR \<notin> set (fix_ligatures text) \<and> CR \<notin> set (strip_boilerplate text) \<and>
     CR \<notin> set (collapse_spaces text) \<and> CR \<notin> set (normalize_newlines text) \<and>
     CR \<notin> set (rejoin_broken_lines text) \<and> CR \<notin> set (strip_lines text) \<and>
     CR \<notin> set (strip text) \<and> CR \<notin> set (clean_text text)"
proof (intro impI conjI)
  assume a: "CR \<notin> set text"
  show "CR \<notin> set (fix_ligatures text)" using a by (rule fix_ligatures_no_cr)
  show "CR \<notin> set (strip_boilerplate text)" using a by (rule strip_boilerplate_chars)
  show "CR \<notin> set (collapse_spaces text)" using a by (rule collapse_spaces_no_cr)
  show "CR \<notin> set (normalize_newlines text)" using a by (rule normalize_newlines_no_cr)
  show "CR \<notin> set (rejoin_broken_lines text)" using a by (rule rejoin_broken_lines_no_cr)
  show "CR \<notin> set (strip_lines text)" using a by (rule strip_lines_no_cr)
  show "CR \<notin> set (strip text)" using a by (rule strip_chars)
  show "CR \<notin> set (clean_text text)" using a by (rule clean_text_no_cr)
qed

theorem carriage_return_not_introduced_witness:
  "CR \<notin> set (u ''a b'') \<and> CR \<notin> set (clean_text (u ''a b''))"
proof -
  have "CR \<notin> set (u ''a b'')" by code_simp
  with carriage_return_not_introduced [of "u ''a b''"] show ?thesis by blast
qed

text \<open>
  Claim C8 as stated fails: nothing in \<open>clean_text\<close> normalises carriage returns, and one
  inside a line survives every stage.
\<close>

theorem carriage_return_counterexample:
  "clean_text (u ''a'' @ [CR] @ u ''b'') = u ''a'' @ [CR] @ u ''b'' \<and>
   CR \<in> set (clean_text (u ''a'' @ [CR] @ u ''b''))"
  by code_simp

end
